theory Spec2Isabelle
  imports Main
begin

section \<open>JavaScript strings\<close>

text \<open>
  Strings are character lists. \<open>toLowerCase\<close> maps the letters A..Z to a..z and leaves
  every other character alone; the keywords matched in this extension are all lower-case
  ASCII, so this is the part of \<^verbatim>\<open>String.prototype.toLowerCase\<close> that decides a match.
\<close>

definition lower_char :: "char \<Rightarrow> char" where
  "lower_char c =
     (let n = (of_char c :: nat) in if 65 \<le> n \<and> n \<le> 90 then char_of (n + 32) else c)"

definition toLowerCase :: "string \<Rightarrow> string" where
  "toLowerCase s = map lower_char s"

fun startsWith :: "string \<Rightarrow> string \<Rightarrow> bool" where
  "startsWith s [] = True"
| "startsWith [] (k # ks) = False"
| "startsWith (c # cs) (k # ks) = (c = k \<and> startsWith cs ks)"

text \<open>\<^verbatim>\<open>s.includes(k)\<close>: does \<open>k\<close> occur in \<open>s\<close> as a contiguous substring.\<close>

fun str_includes :: "string \<Rightarrow> string \<Rightarrow> bool" where
  "str_includes [] k = (k = [])"
| "str_includes (c # cs) k = (startsWith (c # cs) k \<or> str_includes cs k)"

text \<open>\<^verbatim>\<open>s.split(sep)\<close> for a one-character separator; the result is never empty.\<close>

fun str_split :: "char \<Rightarrow> string \<Rightarrow> string list" where
  "str_split sep [] = [[]]"
| "str_split sep (c # cs) =
     (if c = sep then [] # str_split sep cs
      else (case str_split sep cs of
              [] \<Rightarrow> [[c]]
            | w # ws \<Rightarrow> (c # w) # ws))"

text \<open>
  \<^verbatim>\<open>parts.pop()\<close> inside a template literal: the last element, and the text
  \<^verbatim>\<open>undefined\<close> for an empty array.
\<close>

definition pop_text :: "string list \<Rightarrow> string" where
  "pop_text parts = (if parts = [] then ''undefined'' else last parts)"

text \<open>\<^verbatim>\<open>parts.join(sep)\<close>.\<close>

fun str_join :: "string \<Rightarrow> string list \<Rightarrow> string" where
  "str_join sep [] = []"
| "str_join sep [x] = x"
| "str_join sep (x # y # ys) = x @ sep @ str_join sep (y # ys)"

text \<open>\<^verbatim>\<open>keywords.some(keyword => text.includes(keyword))\<close>.\<close>

definition some_keyword :: "string list \<Rightarrow> string \<Rightarrow> bool" where
  "some_keyword keywords text = list_ex (\<lambda>keyword. str_includes text keyword) keywords"

section \<open>Settings objects\<close>

text \<open>
  A settings object as it travels in a \<^verbatim>\<open>saveSettings\<close> request, sits in
  \<^verbatim>\<open>chrome.storage.sync\<close> and comes back from \<^verbatim>\<open>getSettings\<close>. Every property is
  optional: \<open>None\<close> is an absent property, which JavaScript reads as \<^verbatim>\<open>undefined\<close>.
\<close>

record settings_obj =
  silentDownloads :: "bool option"
  defaultPath :: "string option"
  hideNotifications :: "bool option"
  hideDownloadBar :: "bool option"
  autoStart :: "bool option"
  conflictAction :: "string option"

text \<open>Truthiness of an optional boolean.\<close>

definition truthy_bool :: "bool option \<Rightarrow> bool" where
  "truthy_bool v = (v = Some True)"

text \<open>
  \<^verbatim>\<open>v || d\<close> for an optional string \<open>v\<close> and a string \<open>d\<close>: \<open>v\<close> when it is truthy,
  else \<open>d\<close>. The same choice is made by \<^verbatim>\<open>if (v) x = v\<close> with \<open>d\<close> the old \<open>x\<close>.
\<close>

definition or_default :: "string option \<Rightarrow> string \<Rightarrow> string" where
  "or_default v d = (case v of None \<Rightarrow> d | Some s \<Rightarrow> if s = [] then d else s)"

text \<open>\<^verbatim>\<open>v !== false\<close>.\<close>

definition not_false :: "bool option \<Rightarrow> bool" where
  "not_false v = (v \<noteq> Some False)"

text \<open>
  \<^verbatim>\<open>chrome.storage.sync.set(obj)\<close> writes the properties of \<open>obj\<close> that have a value and
  leaves every other key of the store as it was.
\<close>

definition set_key :: "'a option \<Rightarrow> 'a option \<Rightarrow> 'a option" where
  "set_key new old = (case new of None \<Rightarrow> old | Some v \<Rightarrow> Some v)"

definition storage_set :: "settings_obj \<Rightarrow> settings_obj \<Rightarrow> settings_obj" where
  "storage_set obj store =
     \<lparr> silentDownloads = set_key (silentDownloads obj) (silentDownloads store),
       defaultPath = set_key (defaultPath obj) (defaultPath store),
       hideNotifications = set_key (hideNotifications obj) (hideNotifications store),
       hideDownloadBar = set_key (hideDownloadBar obj) (hideDownloadBar store),
       autoStart = set_key (autoStart obj) (autoStart store),
       conflictAction = set_key (conflictAction obj) (conflictAction store) \<rparr>"

section \<open>background.js: the log store\<close>

datatype level = Info | Warn | Error

datatype js_error = TypeError

text \<open>
  What a caller hands to \<^verbatim>\<open>logMessage\<close> as \<^verbatim>\<open>data\<close> at the levels that are stored:
  \<^verbatim>\<open>chrome.runtime.lastError\<close> or a caught exception. The entry keeps the value whose
  \<^verbatim>\<open>JSON.stringify\<close> text the source stores, and \<open>None\<close> where the source stores null.
\<close>

datatype log_payload = LastError string | Caught js_error

record log_entry =
  timestamp :: string
  level :: level
  message :: string
  data :: "log_payload option"

text \<open>
  The state of the service worker: the synchronised settings, the key \<^verbatim>\<open>errorLogs\<close> of
  \<^verbatim>\<open>chrome.storage.local\<close> (\<open>None\<close> until it is first written) and the module variable
  \<^verbatim>\<open>defaultDownloadPath\<close>.
\<close>

record bg_state =
  sync :: settings_obj
  errorLogs :: "log_entry list option"
  defaultDownloadPath :: string

text \<open>\<^verbatim>\<open>result.errorLogs || []\<close>, which is also what \<^verbatim>\<open>getLogs\<close> answers.\<close>

definition getLogs :: "bg_state \<Rightarrow> log_entry list" where
  "getLogs st = (case errorLogs st of None \<Rightarrow> [] | Some logs \<Rightarrow> logs)"

text \<open>
  \<^verbatim>\<open>logMessage(level, message, data)\<close> does not touch the store itself: at the levels
  warn and error it asks \<^verbatim>\<open>chrome.storage.local.get\<close> for the key, and the callback of that
  read pushes the entry, shifts once and hands the array to \<^verbatim>\<open>chrome.storage.local.set\<close>.
  \<open>log_callback\<close> is that callback: from the answer of the read (the value of
  \<^verbatim>\<open>errorLogs\<close> when the host read it, \<open>None\<close> for a missing key) to the array it sets.
  \<open>now\<close> is the clock reading taken when \<^verbatim>\<open>logMessage\<close> was called.
\<close>

definition log_callback :: "string \<Rightarrow> level \<Rightarrow> string \<Rightarrow> log_payload option \<Rightarrow> log_entry list option \<Rightarrow> log_entry list" where
  "log_callback now lvl msg d result_errorLogs =
     (let logs = (case result_errorLogs of None \<Rightarrow> [] | Some stored \<Rightarrow> stored)
                 @ [\<lparr> timestamp = now, level = lvl, message = msg, data = d \<rparr>];
          logs' = (if length logs > 50 then tl logs else logs)
      in logs')"

text \<open>
  Several calls can be in flight at once: nothing makes a caller wait for the write of an
  earlier call. What the store goes through is a sequence of two kinds of events. In
  \<open>Read i now lvl msg d\<close> the host answers the read of call number \<open>i\<close> and its callback
  runs on that answer; in \<open>Write i\<close> the array that callback handed to
  \<^verbatim>\<open>chrome.storage.local.set\<close> replaces the key. The state is the key \<^verbatim>\<open>errorLogs\<close> and the
  arrays handed over and not yet written, by call number.
\<close>

datatype log_event =
  Read nat string level string "log_payload option"
| Write nat

fun log_step :: "log_event \<Rightarrow> log_entry list option \<times> (nat \<times> log_entry list) list \<Rightarrow> log_entry list option \<times> (nat \<times> log_entry list) list" where
  "log_step (Read i now lvl msg d) (store, in_flight) =
     (if lvl = Error \<or> lvl = Warn
      then (store, (i, log_callback now lvl msg d store) # in_flight)
      else (store, in_flight))"
| "log_step (Write i) (store, in_flight) =
     (case map_of in_flight i of
        None \<Rightarrow> (store, in_flight)
      | Some logs \<Rightarrow> (Some logs, filter (\<lambda>p. fst p \<noteq> i) in_flight))"

fun run_log_events :: "log_event list \<Rightarrow> log_entry list option \<times> (nat \<times> log_entry list) list \<Rightarrow> log_entry list option \<times> (nat \<times> log_entry list) list" where
  "run_log_events [] s = s"
| "run_log_events (e # es) s = run_log_events es (log_step e s)"

text \<open>\<^verbatim>\<open>result.errorLogs || []\<close> on a value of the key.\<close>

definition logs_of :: "log_entry list option \<Rightarrow> log_entry list" where
  "logs_of store = (case store of None \<Rightarrow> [] | Some logs \<Rightarrow> logs)"

text \<open>
  A call that no other call overlaps: its read sees the store as the state has it and
  its write lands before anything else touches the key. This is the state a listener
  leaves behind when the one error it logs is the only call in flight.
\<close>

definition logMessage :: "string \<Rightarrow> level \<Rightarrow> string \<Rightarrow> log_payload option \<Rightarrow> bg_state \<Rightarrow> bg_state" where
  "logMessage now lvl msg d st =
     (if lvl = Error \<or> lvl = Warn
      then st\<lparr> errorLogs := Some (log_callback now lvl msg d (errorLogs st)) \<rparr>
      else st)"

text \<open>
  A sequence of calls none of which overlaps another, each with its own clock reading,
  and the events of such a sequence: every call is read and written before the next is
  read. \<open>n\<close> is the number of the first call.
\<close>

fun sequential :: "nat \<Rightarrow> (string \<times> level \<times> string \<times> log_payload option) list \<Rightarrow> log_event list" where
  "sequential n [] = []"
| "sequential n ((now, lvl, msg, d) # calls) =
     Read n now lvl msg d # Write n # sequential (Suc n) calls"

fun logMessages :: "(string \<times> level \<times> string \<times> log_payload option) list \<Rightarrow> bg_state \<Rightarrow> bg_state" where
  "logMessages [] st = st"
| "logMessages ((now, lvl, msg, d) # calls) st = logMessages calls (logMessage now lvl msg d st)"

text \<open>The entry a call would store, and whether its level is one that is stored.\<close>

definition entry_of :: "string \<times> level \<times> string \<times> log_payload option \<Rightarrow> log_entry" where
  "entry_of c = (case c of (now, lvl, msg, d) \<Rightarrow>
     \<lparr> timestamp = now, level = lvl, message = msg, data = d \<rparr>)"

definition stored_level :: "string \<times> level \<times> string \<times> log_payload option \<Rightarrow> bool" where
  "stored_level c = (case c of (now, lvl, msg, d) \<Rightarrow> lvl = Warn \<or> lvl = Error)"

section \<open>background.js: filename determination\<close>

text \<open>
  What the listener passes to \<^verbatim>\<open>suggest\<close>: both properties absent is \<^verbatim>\<open>suggest({})\<close>,
  the host's default behaviour. \<open>conflict\<close> is the property \<^verbatim>\<open>conflictAction\<close> of the
  suggestion (the settings object has a property of that name too).
\<close>

record suggestion =
  filename :: "string option"
  conflict :: "string option"

definition no_suggestion :: suggestion where
  "no_suggestion = \<lparr> filename = None, conflict = None \<rparr>"

text \<open>
  The body of the \<^verbatim>\<open>try\<close> block. \<open>result\<close> is what \<^verbatim>\<open>chrome.storage.sync.get\<close> hands to
  the callback, \<open>None\<close> when the read failed and the callback got \<^verbatim>\<open>undefined\<close>;
  \<open>item_filename\<close> is \<^verbatim>\<open>downloadItem.filename\<close>, \<open>None\<close> when the host gave none. Reading
  a property of \<^verbatim>\<open>undefined\<close> and calling \<^verbatim>\<open>includes\<close> on \<^verbatim>\<open>undefined\<close> raise.
\<close>

definition determine_filename :: "string \<Rightarrow> settings_obj option \<Rightarrow> string option \<Rightarrow> js_error + suggestion" where
  "determine_filename dflt result item_filename =
     (case result of
        None \<Rightarrow> Inl TypeError
      | Some r \<Rightarrow>
          if truthy_bool (silentDownloads r) then
            (let customPath = or_default (defaultPath r) dflt in
             case item_filename of
               None \<Rightarrow> Inl TypeError
             | Some path \<Rightarrow>
                 (let pathSeparator = (if CHR ''/'' \<in> set path then CHR ''/'' else CHR 0x5C);
                      fname = pop_text (str_split pathSeparator path);
                      targetPath = (if customPath \<noteq> [] then customPath @ [pathSeparator] @ fname
                                    else fname)
                  in Inr \<lparr> filename = Some targetPath, conflict = Some ''uniquify'' \<rparr>))
          else Inr no_suggestion)"

text \<open>
  The listener: the storage callback with its \<^verbatim>\<open>catch\<close>. \<open>read_ok\<close> says whether the
  read of the settings succeeded. The result is the argument of the one \<^verbatim>\<open>suggest\<close> call
  and the state after it.
\<close>

definition onDeterminingFilename :: "string \<Rightarrow> bool \<Rightarrow> string option \<Rightarrow> bg_state \<Rightarrow> suggestion \<times> bg_state" where
  "onDeterminingFilename now read_ok item_filename st =
     (case determine_filename (defaultDownloadPath st)
             (if read_ok then Some (sync st) else None) item_filename of
        Inr s \<Rightarrow> (s, st)
      | Inl e \<Rightarrow> (no_suggestion,
                  logMessage now Error ''Error in filename determination'' (Some (Caught e)) st))"

section \<open>background.js: notifications\<close>

text \<open>
  A host notification: its \<^verbatim>\<open>title\<close> and its \<^verbatim>\<open>message\<close> (here \<open>body_message\<close>), each
  \<open>None\<close> when the property is missing.
\<close>

record notification =
  title :: "string option"
  body_message :: "string option"

text \<open>
  \<^verbatim>\<open>field && downloadKeywords.some(keyword => field.toLowerCase().includes(keyword))\<close>
  with the keyword list of the \<^verbatim>\<open>onCreated\<close> listener.
\<close>

definition downloadKeywords :: "string list" where
  "downloadKeywords = [''download'', ''save'', ''complete'', ''finish'']"

definition field_match :: "string option \<Rightarrow> bool" where
  "field_match field =
     (case field of
        None \<Rightarrow> False
      | Some s \<Rightarrow> s \<noteq> [] \<and> some_keyword downloadKeywords (toLowerCase s))"

definition is_download_related :: "notification \<Rightarrow> bool" where
  "is_download_related n = (field_match (title n) \<or> field_match (body_message n))"

text \<open>
  The \<^verbatim>\<open>onCreated\<close> listener. \<open>notifications\<close> is what \<^verbatim>\<open>chrome.notifications.getAll\<close>
  delivers, in key order, \<open>None\<close> for a falsy answer. The result lists the ids handed to
  \<^verbatim>\<open>chrome.notifications.clear\<close>, in order.
\<close>

definition onCreated :: "string \<Rightarrow> bool \<Rightarrow> (string \<times> notification) list option \<Rightarrow> bg_state \<Rightarrow> string list \<times> bg_state" where
  "onCreated now read_ok notifications st =
     (if \<not> read_ok then
        ([], logMessage now Error ''Error handling download creation'' (Some (Caught TypeError)) st)
      else if truthy_bool (silentDownloads (sync st)) \<and> not_false (hideNotifications (sync st)) then
        (case notifications of
           None \<Rightarrow> ([], st)
         | Some ns \<Rightarrow> (map fst (filter (\<lambda>(notificationId, n). is_download_related n) ns), st))
      else ([], st))"

text \<open>
  The \<^verbatim>\<open>onChanged\<close> listener. \<open>state_current\<close> is \<^verbatim>\<open>downloadDelta.state?.current\<close>. The
  timer of 500 ms is not part of the model: \<open>notifications\<close> is what \<^verbatim>\<open>getAll\<close> delivers
  when the timer fires. The timer callback runs outside the \<^verbatim>\<open>try\<close> block, so
  \<^verbatim>\<open>Object.keys\<close> of a missing answer raises there.
\<close>

definition onChanged :: "string \<Rightarrow> bool \<Rightarrow> string option \<Rightarrow> (string \<times> notification) list option \<Rightarrow> bg_state \<Rightarrow> (js_error + string list) \<times> bg_state" where
  "onChanged now read_ok state_current notifications st =
     (if \<not> read_ok then
        (Inr [], logMessage now Error ''Error handling download state change'' (Some (Caught TypeError)) st)
      else if truthy_bool (silentDownloads (sync st)) \<and> not_false (hideNotifications (sync st)) then
        (if state_current = Some ''complete'' then
           (case notifications of
              None \<Rightarrow> (Inl TypeError, st)
            | Some ns \<Rightarrow> (Inr (map fst ns), st))
         else (Inr [], st))
      else (Inr [], st))"

section \<open>background.js: the settings messages\<close>

text \<open>
  \<^verbatim>\<open>getSettings\<close>: the response object and, when the read failed, its \<^verbatim>\<open>error\<close> text.
  \<open>lastError\<close> is \<^verbatim>\<open>chrome.runtime.lastError\<close> in the storage callback.
\<close>

definition getSettings :: "string \<Rightarrow> string option \<Rightarrow> bg_state \<Rightarrow> (string option \<times> settings_obj) \<times> bg_state" where
  "getSettings now lastError st =
     (case lastError of
        Some m \<Rightarrow>
          ((Some m,
            \<lparr> silentDownloads = Some True,
              defaultPath = Some (defaultDownloadPath st),
              hideNotifications = Some True,
              hideDownloadBar = Some True,
              autoStart = Some True,
              conflictAction = None \<rparr>),
           logMessage now Error ''Error retrieving settings'' (Some (LastError m)) st)
      | None \<Rightarrow>
          ((None,
            \<lparr> silentDownloads = Some (not_false (silentDownloads (sync st))),
              defaultPath = Some (case defaultPath (sync st) of
                                    None \<Rightarrow> defaultDownloadPath st
                                  | Some p \<Rightarrow> p),
              hideNotifications = Some (not_false (hideNotifications (sync st))),
              hideDownloadBar = Some (not_false (hideDownloadBar (sync st))),
              autoStart = Some (not_false (autoStart (sync st))),
              conflictAction = None \<rparr>),
           st))"

text \<open>
  \<^verbatim>\<open>saveSettings\<close>: the response \<open>(success, error)\<close> and the state after the write. A
  write the host rejects leaves the store as it was.
\<close>

definition saveSettings :: "string \<Rightarrow> string option \<Rightarrow> settings_obj \<Rightarrow> bg_state \<Rightarrow> (bool \<times> string option) \<times> bg_state" where
  "saveSettings now lastError request st =
     (let settingsToSave =
            \<lparr> silentDownloads = silentDownloads request,
              defaultPath = defaultPath request,
              hideNotifications = hideNotifications request,
              hideDownloadBar = hideDownloadBar request,
              autoStart = autoStart request,
              conflictAction = None \<rparr>
      in case lastError of
           Some m \<Rightarrow>
             ((False, Some m),
              logMessage now Error ''Error saving settings'' (Some (LastError m)) st)
         | None \<Rightarrow>
             ((True, None),
              st\<lparr> sync := storage_set settingsToSave (sync st),
                  defaultDownloadPath := or_default (defaultPath request) (defaultDownloadPath st) \<rparr>))"

section \<open>content.js: the mutation observer\<close>

text \<open>
  The part of the page the observer looks at: text nodes and elements with their
  \<^verbatim>\<open>class\<close>, \<^verbatim>\<open>id\<close> and \<^verbatim>\<open>role\<close> attributes (an absent \<^verbatim>\<open>class\<close> or \<^verbatim>\<open>id\<close> is the empty
  string) and their children. \<open>svg\<close> tells an SVG element from an HTML element.
\<close>

record element_attrs =
  svg :: bool
  class_attr :: string
  elem_id :: string
  role :: "string option"

datatype dom_node = TextNode string | Element element_attrs "dom_node list"

fun textContent :: "dom_node \<Rightarrow> string" where
  "textContent (TextNode s) = s"
| "textContent (Element a children) = concat (map textContent children)"

text \<open>The nodes below a node, in document order.\<close>

fun descendants :: "dom_node \<Rightarrow> dom_node list" where
  "descendants (TextNode s) = []"
| "descendants (Element a children) = concat (map (\<lambda>c. c # descendants c) children)"

text \<open>
  The selector \<^verbatim>\<open>[class*="download"], [id*="download"]\<close>: an attribute selector compares
  the attribute value as it is written.
\<close>

fun download_selector :: "dom_node \<Rightarrow> bool" where
  "download_selector (TextNode s) = False"
| "download_selector (Element a children) =
     (str_includes (class_attr a) ''download'' \<or> str_includes (elem_id a) ''download'')"

definition querySelectorAll_download :: "dom_node \<Rightarrow> dom_node list" where
  "querySelectorAll_download n = filter download_selector (descendants n)"

definition mutationKeywords :: "string list" where
  "mutationKeywords = [''download'', ''downloaded'', ''complete'', ''saved'']"

text \<open>
  \<^verbatim>\<open>element.className?.toString() || ''\<close>. On an HTML element the property is the text
  of the class attribute. On an SVG element it is an \<^verbatim>\<open>SVGAnimatedString\<close> object, and
  \<^verbatim>\<open>toString\<close> of that object is the text below, whatever the class attribute holds.
\<close>

definition className :: "element_attrs \<Rightarrow> string" where
  "className a = (if svg a then ''[object SVGAnimatedString]'' else class_attr a)"

text \<open>The first \<^verbatim>\<open>if\<close> of the loop body, on the element itself.\<close>

definition own_match :: "element_attrs \<Rightarrow> string \<Rightarrow> bool" where
  "own_match a content =
     (let cls = toLowerCase (className a);
          ident = toLowerCase (elem_id a);
          text = toLowerCase content;
          textHasKeywords = some_keyword mutationKeywords text
      in str_includes cls ''download'' \<or>
         str_includes ident ''download'' \<or>
         (str_includes cls ''notification'' \<and> textHasKeywords) \<or>
         (str_includes cls ''toast'' \<and> textHasKeywords) \<or>
         (role a = Some ''alert'' \<and> textHasKeywords))"

text \<open>
  The loop body for one added node: does it set \<^verbatim>\<open>shouldHide\<close>. A node that is not an
  element is skipped.
\<close>

fun classify :: "dom_node \<Rightarrow> bool" where
  "classify (TextNode s) = False"
| "classify (Element a children) =
     (own_match a (textContent (Element a children)) \<or>
      querySelectorAll_download (Element a children) \<noteq> [])"

text \<open>
  The two loops with their \<^verbatim>\<open>break\<close>s. Besides \<^verbatim>\<open>shouldHide\<close> the functions return the
  added nodes whose loop body was entered, in order: the nodes the callback looked at.
\<close>

fun scan_nodes :: "dom_node list \<Rightarrow> bool \<times> dom_node list" where
  "scan_nodes [] = (False, [])"
| "scan_nodes (n # ns) =
     (if classify n then (True, [n])
      else (case scan_nodes ns of (shouldHide, seen) \<Rightarrow> (shouldHide, n # seen)))"

fun scan_mutations :: "dom_node list list \<Rightarrow> bool \<times> dom_node list" where
  "scan_mutations [] = (False, [])"
| "scan_mutations (addedNodes # mutations) =
     (case scan_nodes addedNodes of
        (shouldHide, seen) \<Rightarrow>
          if shouldHide then (True, seen)
          else (case scan_mutations mutations of
                  (shouldHide', seen') \<Rightarrow> (shouldHide', seen @ seen')))"

section \<open>content.js: the Notification constructor\<close>

definition notificationKeywords :: "string list" where
  "notificationKeywords =
     [''download'', ''downloaded'', ''downloading'', ''complete'', ''saved'',
      ''finished'', ''file'', ''.zip'', ''.pdf'', ''.exe'', ''.dmg'']"

text \<open>
  \<^verbatim>\<open>isDownloadNotification(title, options)\<close>. \<open>title\<close> is \<open>None\<close> when the first argument
  is not a string; \<open>options\<close> is \<open>None\<close> when there is no options object, and its body is
  \<open>None\<close> when \<^verbatim>\<open>options.body\<close> is not a string.
\<close>

definition isDownloadNotification :: "string option \<Rightarrow> string option option \<Rightarrow> bool" where
  "isDownloadNotification title_arg options =
     (if (case title_arg of
            None \<Rightarrow> False
          | Some t \<Rightarrow> t \<noteq> [] \<and> some_keyword notificationKeywords (toLowerCase t))
      then True
      else if (case options of
                 None \<Rightarrow> False
               | Some None \<Rightarrow> False
               | Some (Some b) \<Rightarrow> b \<noteq> [] \<and> some_keyword notificationKeywords (toLowerCase b))
      then True
      else False)"

text \<open>
  What \<^verbatim>\<open>window.Notification(title, options)\<close> returns after the override: the object of
  no-op methods, or a notification made by the original constructor.
\<close>

datatype notification_result =
  NoopObject
| OriginalNotification "string option" "string option option"

definition Notification_override :: "string option \<Rightarrow> string option option \<Rightarrow> notification_result" where
  "Notification_override title_arg options =
     (if isDownloadNotification title_arg options then NoopObject
      else OriginalNotification title_arg options)"

section \<open>content.js: console.log and console.info\<close>

text \<open>
  An argument of a console call: a string; a non-null object with the text
  \<^verbatim>\<open>JSON.stringify\<close> gives for it (\<open>None\<close> when that call raises or gives no string); or
  anything else (a number, a boolean, null, undefined, a function).
\<close>

datatype console_arg = StringArg string | ObjectArg "string option" | OtherArg

fun arg_text :: "console_arg \<Rightarrow> string" where
  "arg_text (StringArg s) = toLowerCase s"
| "arg_text (ObjectArg (Some json)) = toLowerCase json"
| "arg_text (ObjectArg None) = []"
| "arg_text OtherArg = []"

definition isDownloadMessage :: "console_arg list \<Rightarrow> bool" where
  "isDownloadMessage args =
     (if args = [] then False
      else str_includes (str_join '' '' (map arg_text args)) ''download'')"

text \<open>
  The overrides. The result is what reaches the original console method: \<open>Some args\<close>
  for a call that is passed on, \<open>None\<close> for no output.
\<close>

fun own_debug_log :: "console_arg list \<Rightarrow> bool" where
  "own_debug_log (StringArg s # rest) = (s \<noteq> [] \<and> str_includes s ''[Silent Downloads]'')"
| "own_debug_log args = False"

definition console_log :: "console_arg list \<Rightarrow> console_arg list option" where
  "console_log args =
     (if own_debug_log args then Some args
      else if \<not> isDownloadMessage args then Some args
      else None)"

definition console_info :: "console_arg list \<Rightarrow> console_arg list option" where
  "console_info args = (if \<not> isDownloadMessage args then Some args else None)"

section \<open>Sample inputs\<close>

text \<open>A state after the settings were saved with the directory \<^verbatim>\<open>MyDownloads\<close>.\<close>

definition sample_state :: bg_state where
  "sample_state =
     \<lparr> sync = \<lparr> silentDownloads = Some True, defaultPath = Some ''MyDownloads'',
                hideNotifications = Some True, hideDownloadBar = Some True,
                autoStart = Some True, conflictAction = None \<rparr>,
       errorLogs = None,
       defaultDownloadPath = ''Downloads'' \<rparr>"

text \<open>The \<open>i\<close>-th of a run of calls at the stored levels, told apart by its clock reading.\<close>

definition sample_call :: "nat \<Rightarrow> string \<times> level \<times> string \<times> log_payload option" where
  "sample_call i = (replicate i CHR ''t'', if even i then Warn else Error, ''failure'', None)"

text \<open>Three added elements: a toast with a keyword in its text, a plain one, a download shelf.\<close>

definition sample_toast :: dom_node where
  "sample_toast =
     Element \<lparr> svg = False, class_attr = ''Toast-box'', elem_id = [], role = None \<rparr>
       [Element \<lparr> svg = False, class_attr = ''label'', elem_id = [], role = None \<rparr>
          [TextNode ''File Saved'']]"

definition sample_plain :: dom_node where
  "sample_plain =
     Element \<lparr> svg = False, class_attr = ''article'', elem_id = ''main'', role = None \<rparr>
       [TextNode ''Meeting at 10'']"

definition sample_shelf :: dom_node where
  "sample_shelf =
     Element \<lparr> svg = False, class_attr = ''download-shelf'', elem_id = [], role = None \<rparr> []"

text \<open>
  An icon with the class \<^verbatim>\<open>download-icon\<close>, as an SVG element and as an HTML element, and
  a plain HTML element around the SVG icon.
\<close>

definition sample_svg_icon :: dom_node where
  "sample_svg_icon =
     Element \<lparr> svg = True, class_attr = ''download-icon'', elem_id = [], role = None \<rparr> []"

definition sample_html_icon :: dom_node where
  "sample_html_icon =
     Element \<lparr> svg = False, class_attr = ''download-icon'', elem_id = [], role = None \<rparr> []"

definition sample_wrapped_icon :: dom_node where
  "sample_wrapped_icon =
     Element \<lparr> svg = False, class_attr = ''wrapper'', elem_id = [], role = None \<rparr> [sample_svg_icon]"

text \<open>The sample state with the key \<^verbatim>\<open>silentDownloads\<close> absent from the store.\<close>

definition sample_unset :: bg_state where
  "sample_unset = sample_state\<lparr> sync := (sync sample_state)\<lparr> silentDownloads := None \<rparr> \<rparr>"

text \<open>A request as the options page sends it, and two notifications.\<close>

definition sample_request :: settings_obj where
  "sample_request =
     \<lparr> silentDownloads = Some False, defaultPath = Some ''TestDownloads'',
       hideNotifications = Some False, hideDownloadBar = Some True,
       autoStart = Some False, conflictAction = Some ''overwrite'' \<rparr>"

definition sample_reminder :: notification where
  "sample_reminder = \<lparr> title = Some ''Meeting reminder'', body_message = Some ''Standup at 10'' \<rparr>"

definition sample_complete :: notification where
  "sample_complete = \<lparr> title = Some ''Download Complete'', body_message = None \<rparr>"

section \<open>Facts about the string operations\<close>

lemma startsWith_iff: "startsWith s k \<longleftrightarrow> (\<exists>post. s = k @ post)"
  by (induction s k rule: startsWith.induct) auto

lemma str_includes_iff: "str_includes s k \<longleftrightarrow> (\<exists>pre post. s = pre @ k @ post)"
proof (induction s)
  case Nil
  then show ?case by auto
next
  case (Cons c cs)
  show ?case
  proof
    assume "str_includes (c # cs) k"
    then consider "startsWith (c # cs) k" | "str_includes cs k" by auto
    then show "\<exists>pre post. c # cs = pre @ k @ post"
    proof cases
      case 1
      then obtain post where "c # cs = k @ post" by (auto simp: startsWith_iff)
      then have "c # cs = [] @ k @ post" by simp
      then show ?thesis by blast
    next
      case 2
      then obtain pre post where "cs = pre @ k @ post" using Cons.IH by auto
      then have "c # cs = (c # pre) @ k @ post" by simp
      then show ?thesis by blast
    qed
  next
    assume "\<exists>pre post. c # cs = pre @ k @ post"
    then obtain pre post where e: "c # cs = pre @ k @ post" by blast
    show "str_includes (c # cs) k"
    proof (cases pre)
      case Nil
      then have "startsWith (c # cs) k" using e by (auto simp: startsWith_iff)
      then show ?thesis by simp
    next
      case (Cons p ps)
      then have "cs = ps @ k @ post" using e by simp
      then have "str_includes cs k" using Cons.IH by blast
      then show ?thesis by simp
    qed
  qed
qed

lemma some_keyword_iff:
  "some_keyword kws s \<longleftrightarrow> (\<exists>k \<in> set kws. \<exists>pre post. s = pre @ k @ post)"
  by (simp add: some_keyword_def list_ex_iff str_includes_iff)

lemma nonempty_if_keyword: "k \<noteq> [] \<Longrightarrow> toLowerCase s = pre @ k @ post \<Longrightarrow> s \<noteq> []"
  by (auto simp: toLowerCase_def)

lemma str_split_nonempty: "str_split sep s \<noteq> []"
  by (induction s) (auto split: list.splits)

lemma str_split_no_sep: "sep \<notin> set s \<Longrightarrow> str_split sep s = [s]"
  by (induction s) (auto split: list.splits)

lemma str_split_two: "sep \<in> set s \<Longrightarrow> \<exists>w v vs. str_split sep s = w # v # vs"
proof (induction s)
  case Nil
  then show ?case by simp
next
  case (Cons c cs)
  show ?case
  proof (cases "c = sep")
    case True
    then show ?thesis using str_split_nonempty[of sep cs] by (cases "str_split sep cs") auto
  next
    case False
    then have "sep \<in> set cs" using Cons.prems by simp
    then obtain w v vs where "str_split sep cs = w # v # vs" using Cons.IH by blast
    then show ?thesis using False by simp
  qed
qed

text \<open>
  The last piece of a split is what follows the last separator of the string.
\<close>

lemma last_str_split:
  "sep \<in> set s \<Longrightarrow>
     \<exists>pre. s = pre @ sep # last (str_split sep s) \<and> sep \<notin> set (last (str_split sep s))"
proof (induction s)
  case Nil
  then show ?case by simp
next
  case (Cons c cs)
  show ?case
  proof (cases "sep \<in> set cs")
    case True
    then obtain pre where p: "cs = pre @ sep # last (str_split sep cs)"
      and n: "sep \<notin> set (last (str_split sep cs))" using Cons.IH by blast
    have l: "last (str_split sep (c # cs)) = last (str_split sep cs)"
      using str_split_two[OF True] by (auto split: list.splits)
    have "c # cs = (c # pre) @ sep # last (str_split sep cs)" using p by simp
    then show ?thesis using l n by metis
  next
    case False
    then have "c = sep" using Cons.prems by simp
    then have "last (str_split sep (c # cs)) = cs" using False by (simp add: str_split_no_sep)
    then show ?thesis using False \<open>c = sep\<close> by auto
  qed
qed

lemma pop_text_str_split: "pop_text (str_split sep s) = last (str_split sep s)"
  by (simp add: pop_text_def str_split_nonempty)

section \<open>The log store\<close>

lemma drop_window:
  "drop (length (drop (length X - n) X @ R) - n) (drop (length X - n) X @ R)
     = drop (length (X @ R) - n) (X @ R)"
proof (cases "n \<le> length X")
  case True
  then show ?thesis by (simp add: add.commute)
next
  case False
  then show ?thesis by simp
qed

lemma tl_as_drop: "length ys = Suc n \<Longrightarrow> tl ys = drop (length ys - n) ys"
  by (simp add: drop_Suc)

lemma getLogs_logMessage:
  "getLogs (logMessage now lvl msg d st) =
     (if lvl = Warn \<or> lvl = Error
      then (let logs = getLogs st @ [\<lparr> timestamp = now, level = lvl, message = msg, data = d \<rparr>]
            in if length logs > 50 then tl logs else logs)
      else getLogs st)"
  by (auto simp: logMessage_def log_callback_def getLogs_def Let_def)

lemma getLogs_logMessage_window:
  assumes "length (getLogs st) \<le> 50"
  shows "getLogs (logMessage now lvl msg d st) =
     (if lvl = Warn \<or> lvl = Error
      then drop (length (getLogs st @ [\<lparr> timestamp = now, level = lvl, message = msg, data = d \<rparr>]) - 50)
                (getLogs st @ [\<lparr> timestamp = now, level = lvl, message = msg, data = d \<rparr>])
      else getLogs st)"
proof (cases "length (getLogs st) = 50")
  case True
  let ?e = "\<lparr> timestamp = now, level = lvl, message = msg, data = d \<rparr>"
  have "length (getLogs st @ [?e]) = Suc 50" using True by simp
  then have "tl (getLogs st @ [?e]) = drop (length (getLogs st @ [?e]) - 50) (getLogs st @ [?e])"
    by (rule tl_as_drop)
  then show ?thesis using True by (simp add: getLogs_logMessage Let_def del: tl_append2)
next
  case False
  then have "length (getLogs st) < 50" using assms by simp
  then show ?thesis by (simp add: getLogs_logMessage Let_def)
qed

lemma stored_level_tuple: "stored_level (now, lvl, msg, d) = (lvl = Warn \<or> lvl = Error)"
  by (simp add: stored_level_def)

lemma getLogs_logMessages:
  "length (getLogs st) \<le> 50 \<Longrightarrow>
     getLogs (logMessages calls st) =
       drop (length (getLogs st @ map entry_of (filter stored_level calls)) - 50)
            (getLogs st @ map entry_of (filter stored_level calls))"
proof (induction calls arbitrary: st)
  case Nil
  then show ?case by simp
next
  case (Cons c calls)
  obtain now lvl msg d where c: "c = (now, lvl, msg, d)" by (cases c) auto
  let ?st1 = "logMessage now lvl msg d st"
  let ?R = "map entry_of (filter stored_level calls)"
  show ?case
  proof (cases "lvl = Warn \<or> lvl = Error")
    case True
    let ?X = "getLogs st @ [entry_of c]"
    have g1: "getLogs ?st1 = drop (length ?X - 50) ?X"
      using getLogs_logMessage_window[OF Cons.prems, of now lvl msg d] True
      by (simp add: c entry_of_def)
    then have "length (getLogs ?st1) \<le> 50" by simp
    then have "getLogs (logMessages calls ?st1) =
        drop (length (getLogs ?st1 @ ?R) - 50) (getLogs ?st1 @ ?R)"
      by (rule Cons.IH)
    also have "\<dots> = drop (length (?X @ ?R) - 50) (?X @ ?R)"
      unfolding g1 by (rule drop_window)
    finally show ?thesis using True by (simp add: c stored_level_tuple)
  next
    case False
    then have g1: "getLogs ?st1 = getLogs st" by (simp add: getLogs_logMessage)
    then have "length (getLogs ?st1) \<le> 50" using Cons.prems by simp
    then have "getLogs (logMessages calls ?st1) =
        drop (length (getLogs ?st1 @ ?R) - 50) (getLogs ?st1 @ ?R)"
      by (rule Cons.IH)
    then show ?thesis using False g1 by (simp add: c stored_level_tuple)
  qed
qed

lemma logs_of_errorLogs: "logs_of (errorLogs st) = getLogs st"
  by (simp add: logs_of_def getLogs_def)

text \<open>The events of calls that do not overlap do what the calls do one after the other.\<close>

lemma run_sequential:
  "run_log_events (sequential n calls) (errorLogs st, []) = (errorLogs (logMessages calls st), [])"
proof (induction calls arbitrary: n st)
  case Nil
  then show ?case by simp
next
  case (Cons c calls)
  obtain now lvl msg d where c: "c = (now, lvl, msg, d)" by (cases c) auto
  have "run_log_events [Read n now lvl msg d, Write n] (errorLogs st, []) =
          (errorLogs (logMessage now lvl msg d st), [])"
    by (simp add: logMessage_def)
  then have "run_log_events (sequential n (c # calls)) (errorLogs st, []) =
          run_log_events (sequential (Suc n) calls) (errorLogs (logMessage now lvl msg d st), [])"
    by (simp add: c)
  then show ?case using Cons.IH[of "Suc n" "logMessage now lvl msg d st"] by (simp add: c)
qed

lemma length_log_callback:
  "length (logs_of store) \<le> 50 \<Longrightarrow> length (log_callback now lvl msg d store) \<le> 50"
  by (auto simp: log_callback_def logs_of_def Let_def split: option.splits)

text \<open>
  Whatever the order of reads and writes, a store of at most 50 entries stays one, as
  long as the arrays in flight have at most 50 entries too.
\<close>

lemma run_log_events_capped:
  "length (logs_of store) \<le> 50 \<Longrightarrow> \<forall>p \<in> set in_flight. length (snd p) \<le> 50 \<Longrightarrow>
     length (logs_of (fst (run_log_events events (store, in_flight)))) \<le> 50"
proof (induction events arbitrary: store in_flight)
  case Nil
  then show ?case by simp
next
  case (Cons e events)
  show ?case
  proof (cases e)
    case (Read i now lvl msg d)
    show ?thesis
    proof (cases "lvl = Error \<or> lvl = Warn")
      case True
      have "\<forall>p \<in> set ((i, log_callback now lvl msg d store) # in_flight). length (snd p) \<le> 50"
        using Cons.prems length_log_callback[of store now lvl msg d] by simp
      then have "length (logs_of (fst (run_log_events events
                   (store, (i, log_callback now lvl msg d store) # in_flight)))) \<le> 50"
        using Cons.prems(1) by (rule Cons.IH[rotated])
      then show ?thesis using Read True by simp
    next
      case False
      then show ?thesis using Read Cons.IH[OF Cons.prems] by simp
    qed
  next
    case (Write i)
    show ?thesis
    proof (cases "map_of in_flight i")
      case None
      then show ?thesis using Write Cons.IH[OF Cons.prems] by simp
    next
      case (Some logs)
      then have "(i, logs) \<in> set in_flight" by (rule map_of_SomeD)
      then have l: "length (logs_of (Some logs)) \<le> 50"
        using Cons.prems(2) by (auto simp: logs_of_def)
      have f: "\<forall>p \<in> set (filter (\<lambda>p. fst p \<noteq> i) in_flight). length (snd p) \<le> 50"
        using Cons.prems(2) by simp
      have "length (logs_of (fst (run_log_events events
               (Some logs, filter (\<lambda>p. fst p \<noteq> i) in_flight)))) \<le> 50"
        using l f by (rule Cons.IH)
      then show ?thesis using Write Some by simp
    qed
  qed
qed

text \<open>
  Claim C5, as the code has it. The write of a call is not tied to its read, so two
  calls can overlap, and then the later write replaces what the earlier one stored. For
  calls that do not overlap, starting from a store of at most 50 entries: the store ends
  as the last 50 of the old entries followed by the entries of the warn and error calls,
  in call order, so a call appends its entry exactly when its level is warn or error and
  the oldest entries go first; 60 warn or error calls on an empty store leave the entries
  of the last 50 of them. These events are the calls taken one after the other, and one
  such call appends its entry and drops the oldest if that made 51. For every order of
  reads and writes, overlapping or not, the store never holds more than 50 entries.
\<close>

theorem log_store_without_overlap:
  assumes "length (getLogs st) \<le> 50"
  shows "logs_of (fst (run_log_events (sequential n calls) (errorLogs st, []))) =
           drop (length (getLogs st @ map entry_of (filter stored_level calls)) - 50)
                (getLogs st @ map entry_of (filter stored_level calls))
       \<and> (getLogs st = [] \<and> length (filter stored_level calls) = 60 \<longrightarrow>
            logs_of (fst (run_log_events (sequential n calls) (errorLogs st, []))) =
              drop 10 (map entry_of (filter stored_level calls)))
       \<and> run_log_events (sequential n calls) (errorLogs st, []) =
           (errorLogs (logMessages calls st), [])
       \<and> getLogs (logMessage now lvl msg d st) =
           (if lvl = Warn \<or> lvl = Error
            then drop (length (getLogs st) + 1 - 50)
                      (getLogs st @ [\<lparr> timestamp = now, level = lvl, message = msg, data = d \<rparr>])
            else getLogs st)
       \<and> length (logs_of (fst (run_log_events events (errorLogs st, [])))) \<le> 50"
proof -
  have r: "run_log_events (sequential n calls) (errorLogs st, []) =
           (errorLogs (logMessages calls st), [])"
    by (rule run_sequential)
  have a: "logs_of (fst (run_log_events (sequential n calls) (errorLogs st, []))) =
           drop (length (getLogs st @ map entry_of (filter stored_level calls)) - 50)
                (getLogs st @ map entry_of (filter stored_level calls))"
    unfolding r using getLogs_logMessages[OF assms, of calls] by (simp add: logs_of_errorLogs)
  have c: "getLogs st = [] \<and> length (filter stored_level calls) = 60 \<longrightarrow>
            logs_of (fst (run_log_events (sequential n calls) (errorLogs st, []))) =
              drop 10 (map entry_of (filter stored_level calls))"
    unfolding a by simp
  have d: "getLogs (logMessage now lvl msg d st) =
           (if lvl = Warn \<or> lvl = Error
            then drop (length (getLogs st) + 1 - 50)
                      (getLogs st @ [\<lparr> timestamp = now, level = lvl, message = msg, data = d \<rparr>])
            else getLogs st)"
    using getLogs_logMessage_window[OF assms, of now lvl msg d] by simp
  have e: "length (logs_of (fst (run_log_events events (errorLogs st, [])))) \<le> 50"
    using assms by (intro run_log_events_capped) (simp_all add: logs_of_errorLogs)
  show ?thesis using a c r d e by (intro conjI)
qed

theorem log_store_without_overlap_witness:
  "length (getLogs sample_state) \<le> 50
   \<and> getLogs sample_state = []
   \<and> length (filter stored_level (map sample_call [0..<60])) = 60
   \<and> logs_of (fst (run_log_events (sequential 0 (map sample_call [0..<60]))
                     (errorLogs sample_state, []))) =
       map (\<lambda>i. entry_of (sample_call i)) [10..<60]
   \<and> length (logs_of (fst (run_log_events
                 [Read 0 ''t0'' Warn ''first'' None, Read 1 ''t1'' Error ''second'' None,
                  Write 0, Write 1]
                 (errorLogs sample_state, [])))) \<le> 50"
proof -
  have h0: "getLogs sample_state = []" by (simp add: sample_state_def getLogs_def)
  have h1: "length (getLogs sample_state) \<le> 50" by (simp add: h0)
  have h2: "length (filter stored_level (map sample_call [0..<60])) = 60" by code_simp
  have h3: "filter stored_level (map sample_call [0..<60]) = map sample_call [0..<60]"
    by code_simp
  note t = log_store_without_overlap
             [OF h1, where n = 0 and calls = "map sample_call [0..<60]"
                and events = "[Read 0 ''t0'' Warn ''first'' None, Read 1 ''t1'' Error ''second'' None,
                               Write 0, Write 1]"]
  have r: "logs_of (fst (run_log_events (sequential 0 (map sample_call [0..<60]))
                     (errorLogs sample_state, []))) =
       drop 10 (map entry_of (filter stored_level (map sample_call [0..<60])))"
    using t h0 h2 by blast
  have r': "logs_of (fst (run_log_events (sequential 0 (map sample_call [0..<60]))
                     (errorLogs sample_state, []))) =
       map (\<lambda>i. entry_of (sample_call i)) [10..<60]"
    unfolding r h3 by (simp add: drop_map o_def)
  have b: "length (logs_of (fst (run_log_events
                 [Read 0 ''t0'' Warn ''first'' None, Read 1 ''t1'' Error ''second'' None,
                  Write 0, Write 1]
                 (errorLogs sample_state, [])))) \<le> 50"
    using t by blast
  show ?thesis using h1 h0 h2 r' b by (intro conjI)
qed

text \<open>
  Two calls at the stored levels made in one turn of the event loop: both reads are
  answered before either write, each callback sees the empty store, and the second
  write replaces the first. The store holds the second entry only. The same two calls
  without overlap leave both entries.
\<close>

theorem overlapping_calls_lose_an_entry:
  "logs_of (fst (run_log_events
       [Read 0 ''t0'' Warn ''first'' None, Read 1 ''t1'' Error ''second'' None, Write 0, Write 1]
       (None, []))) =
     [\<lparr> timestamp = ''t1'', level = Error, message = ''second'', data = None \<rparr>]
   \<and> logs_of (fst (run_log_events
       [Read 0 ''t0'' Warn ''first'' None, Write 0, Read 1 ''t1'' Error ''second'' None, Write 1]
       (None, []))) =
     [\<lparr> timestamp = ''t0'', level = Warn, message = ''first'', data = None \<rparr>,
      \<lparr> timestamp = ''t1'', level = Error, message = ''second'', data = None \<rparr>]"
  by (simp add: log_callback_def logs_of_def)

section \<open>Filename determination\<close>

lemma determine_filename_silent:
  assumes "silentDownloads r = Some True"
  shows "determine_filename dflt (Some r) (Some path) =
     Inr \<lparr> filename = Some
             (let sep = (if CHR ''/'' \<in> set path then CHR ''/'' else CHR 0x5C);
                  dir = or_default (defaultPath r) dflt;
                  seg = last (str_split sep path)
              in if dir = [] then seg else dir @ sep # seg),
           conflict = Some ''uniquify'' \<rparr>"
  using assms
  by (simp add: determine_filename_def truthy_bool_def Let_def pop_text_str_split)

text \<open>
  Claim C1. With \<open>silentDownloads\<close> stored as true and a host path that contains a slash
  or a backslash, the listener suggests the directory, the separator and the last
  segment of the host path, with conflict action \<^verbatim>\<open>uniquify\<close>, and logs nothing. The
  directory is the stored \<open>defaultPath\<close> or, when that is absent or empty, the inferred
  \<open>defaultDownloadPath\<close>; when there is no directory at all the target is the segment
  alone. The separator is the slash if the path has one, else the backslash, and it does
  occur in the path; the segment is what follows its last occurrence.
\<close>

theorem suggested_target:
  assumes "silentDownloads (sync st) = Some True"
      and "CHR ''/'' \<in> set path \<or> CHR 0x5C \<in> set path"
  shows "(let sep = (if CHR ''/'' \<in> set path then CHR ''/'' else CHR 0x5C);
              dir = or_default (defaultPath (sync st)) (defaultDownloadPath st);
              seg = last (str_split sep path)
          in onDeterminingFilename now True (Some path) st =
               (\<lparr> filename = Some (if dir = [] then seg else dir @ sep # seg),
                  conflict = Some ''uniquify'' \<rparr>, st)
             \<and> sep \<in> set path
             \<and> (\<exists>pre. path = pre @ sep # seg)
             \<and> sep \<notin> set seg)"
proof -
  let ?sep = "if CHR ''/'' \<in> set path then CHR ''/'' else CHR 0x5C"
  have m: "?sep \<in> set path" using assms(2) by auto
  obtain pre where p: "path = pre @ ?sep # last (str_split ?sep path)"
    and n: "?sep \<notin> set (last (str_split ?sep path))"
    using last_str_split[OF m] by blast
  have d: "onDeterminingFilename now True (Some path) st =
      (\<lparr> filename = Some
             (let sep = ?sep;
                  dir = or_default (defaultPath (sync st)) (defaultDownloadPath st);
                  seg = last (str_split sep path)
              in if dir = [] then seg else dir @ sep # seg),
           conflict = Some ''uniquify'' \<rparr>, st)"
    by (simp add: onDeterminingFilename_def determine_filename_silent[OF assms(1)])
  have e: "\<exists>pre. path = pre @ ?sep # last (str_split ?sep path)" using p by blast
  show ?thesis
    unfolding Let_def using d m e n unfolding Let_def by blast
qed

theorem suggested_target_witness:
  "silentDownloads (sync sample_state) = Some True
   \<and> CHR ''/'' \<in> set ''/tmp/x/report.pdf''
   \<and> onDeterminingFilename ''2026-01-01T00:00:00.000Z'' True (Some ''/tmp/x/report.pdf'') sample_state =
       (\<lparr> filename = Some ''MyDownloads/report.pdf'', conflict = Some ''uniquify'' \<rparr>,
        sample_state)"
proof -
  have h1: "silentDownloads (sync sample_state) = Some True" by (simp add: sample_state_def)
  have h2: "CHR ''/'' \<in> set ''/tmp/x/report.pdf'' \<or> CHR 0x5C \<in> set ''/tmp/x/report.pdf''"
    by simp
  have s: "last (str_split CHR ''/'' ''/tmp/x/report.pdf'') = ''report.pdf''" by simp
  have d: "or_default (defaultPath (sync sample_state)) (defaultDownloadPath sample_state)
             = ''MyDownloads''"
    by (simp add: sample_state_def or_default_def)
  show ?thesis
    using suggested_target[OF h1 h2, of "''2026-01-01T00:00:00.000Z''"] h1 s d
    by (simp add: Let_def)
qed

text \<open>
  Claim C8. When the read of the settings failed, and whenever the body of the \<^verbatim>\<open>try\<close>
  block raises, the listener answers with the empty suggestion and logs the error; a
  download item without a filename is one way the body raises. In every case the
  listener returns, with the empty suggestion or with a target and \<^verbatim>\<open>uniquify\<close>: each
  raise of the body is a branch that the \<^verbatim>\<open>catch\<close> turns into the empty suggestion.
\<close>

theorem filename_fallback:
  "(\<not> read_ok \<longrightarrow> fst (onDeterminingFilename now read_ok item st) = no_suggestion)
   \<and> (determine_filename (defaultDownloadPath st)
         (if read_ok then Some (sync st) else None) item = Inl e \<longrightarrow>
      onDeterminingFilename now read_ok item st =
        (no_suggestion,
         logMessage now Error ''Error in filename determination'' (Some (Caught e)) st))
   \<and> (read_ok \<and> silentDownloads (sync st) = Some True \<and> item = None \<longrightarrow>
      determine_filename (defaultDownloadPath st)
         (if read_ok then Some (sync st) else None) item = Inl TypeError)
   \<and> (fst (onDeterminingFilename now read_ok item st) = no_suggestion
      \<or> (\<exists>target. fst (onDeterminingFilename now read_ok item st) =
            \<lparr> filename = Some target, conflict = Some ''uniquify'' \<rparr>))"
  by (auto simp: onDeterminingFilename_def determine_filename_def truthy_bool_def Let_def
           split: option.splits sum.splits)

theorem filename_fallback_witness:
  "fst (onDeterminingFilename ''t1'' False (Some ''/tmp/x/report.pdf'') sample_state) = no_suggestion
   \<and> determine_filename (defaultDownloadPath sample_state) (Some (sync sample_state)) None =
       Inl TypeError
   \<and> onDeterminingFilename ''t2'' True None sample_state =
     (no_suggestion,
      logMessage ''t2'' Error ''Error in filename determination'' (Some (Caught TypeError))
        sample_state)"
proof -
  have h: "silentDownloads (sync sample_state) = Some True" by (simp add: sample_state_def)
  note a = filename_fallback[of False "''t1''" "Some ''/tmp/x/report.pdf''" sample_state TypeError]
  note b = filename_fallback[of True "''t2''" None sample_state TypeError]
  have r: "determine_filename (defaultDownloadPath sample_state)
             (if True then Some (sync sample_state) else None) None = Inl TypeError"
    using b h by blast
  have 1: "fst (onDeterminingFilename ''t1'' False (Some ''/tmp/x/report.pdf'') sample_state) = no_suggestion"
    using a by blast
  have 2: "onDeterminingFilename ''t2'' True None sample_state =
     (no_suggestion,
      logMessage ''t2'' Error ''Error in filename determination'' (Some (Caught TypeError))
        sample_state)"
    using b r by blast
  have 3: "determine_filename (defaultDownloadPath sample_state) (Some (sync sample_state)) None =
       Inl TypeError"
    using r by simp
  show ?thesis using 1 3 2 by (intro conjI)
qed

section \<open>Notifications\<close>

lemma downloadKeywords_nonempty: "k \<in> set downloadKeywords \<Longrightarrow> k \<noteq> []"
  by (auto simp: downloadKeywords_def)

lemma field_match_iff:
  "field_match f \<longleftrightarrow>
     (\<exists>k \<in> set downloadKeywords. \<exists>s pre post. f = Some s \<and> toLowerCase s = pre @ k @ post)"
proof (cases f)
  case None
  then show ?thesis by (simp add: field_match_def)
next
  case (Some s)
  have "s \<noteq> []" if "k \<in> set downloadKeywords" "toLowerCase s = pre @ k @ post" for k pre post
    using nonempty_if_keyword[OF downloadKeywords_nonempty[OF that(1)] that(2)] .
  then have "field_match (Some s) \<longleftrightarrow>
      (\<exists>k \<in> set downloadKeywords. \<exists>pre post. toLowerCase s = pre @ k @ post)"
    unfolding field_match_def some_keyword_iff by auto
  then show ?thesis using Some by simp
qed

lemma downloadKeywords_subset:
  "k \<in> set downloadKeywords \<Longrightarrow>
     k \<in> set [''download'', ''save'', ''complete'', ''finish'', ''downloaded'', ''finished'']"
  unfolding downloadKeywords_def by auto

lemma spec_keywords_cases:
  "k \<in> set [''download'', ''save'', ''complete'', ''finish'', ''downloaded'', ''finished''] \<Longrightarrow>
     k \<in> set downloadKeywords \<or> k = ''downloaded'' \<or> k = ''finished''"
  unfolding downloadKeywords_def by simp

text \<open>
  The two longer keywords of the specification add nothing: a text that contains
  \<^verbatim>\<open>downloaded\<close> contains \<^verbatim>\<open>download\<close>, and likewise for \<^verbatim>\<open>finished\<close>.
\<close>

lemma spec_keywords:
  "(\<exists>k \<in> set [''download'', ''save'', ''complete'', ''finish'', ''downloaded'', ''finished''].
       \<exists>pre post. s = pre @ k @ post)
   \<longleftrightarrow> (\<exists>k \<in> set downloadKeywords. \<exists>pre post. s = pre @ k @ post)"
proof
  assume "\<exists>k \<in> set [''download'', ''save'', ''complete'', ''finish'', ''downloaded'', ''finished''].
       \<exists>pre post. s = pre @ k @ post"
  then obtain k pre post
    where k: "k \<in> set [''download'', ''save'', ''complete'', ''finish'', ''downloaded'', ''finished'']"
      and s: "s = pre @ k @ post" by blast
  consider "k \<in> set downloadKeywords" | "k = ''downloaded''" | "k = ''finished''"
    using spec_keywords_cases[OF k] by blast
  then show "\<exists>k \<in> set downloadKeywords. \<exists>pre post. s = pre @ k @ post"
  proof cases
    case 1
    then show ?thesis using s by blast
  next
    case 2
    then have "s = pre @ ''download'' @ (''ed'' @ post)" using s by simp
    moreover have "''download'' \<in> set downloadKeywords" by (simp add: downloadKeywords_def)
    ultimately show ?thesis by blast
  next
    case 3
    then have "s = pre @ ''finish'' @ (''ed'' @ post)" using s by simp
    moreover have "''finish'' \<in> set downloadKeywords" by (simp add: downloadKeywords_def)
    ultimately show ?thesis by blast
  qed
next
  assume "\<exists>k \<in> set downloadKeywords. \<exists>pre post. s = pre @ k @ post"
  then obtain k pre post where "k \<in> set downloadKeywords" and s: "s = pre @ k @ post" by blast
  then have "k \<in> set [''download'', ''save'', ''complete'', ''finish'', ''downloaded'', ''finished'']"
    using downloadKeywords_subset by blast
  then show "\<exists>k \<in> set [''download'', ''save'', ''complete'', ''finish'', ''downloaded'', ''finished''].
       \<exists>pre post. s = pre @ k @ post"
    using s by blast
qed

lemma field_match_spec:
  "field_match f \<longleftrightarrow>
     (\<exists>s. f = Some s \<and>
        (\<exists>k \<in> set [''download'', ''save'', ''complete'', ''finish'', ''downloaded'', ''finished''].
           \<exists>pre post. toLowerCase s = pre @ k @ post))"
proof -
  have "field_match f \<longleftrightarrow>
     (\<exists>s. f = Some s \<and> (\<exists>k \<in> set downloadKeywords. \<exists>pre post. toLowerCase s = pre @ k @ post))"
    unfolding field_match_iff by blast
  then show ?thesis by (simp only: spec_keywords)
qed

lemma lower_download_complete: "toLowerCase ''Download Complete'' = ''download complete''"
  by code_simp

lemma lower_meeting_reminder: "toLowerCase ''Meeting reminder'' = ''meeting reminder''"
  by code_simp

lemma lower_standup: "toLowerCase ''Standup at 10'' = ''standup at 10''"
  by code_simp

lemma title_download_complete: "field_match (Some ''Download Complete'')"
  by (simp add: field_match_def lower_download_complete some_keyword_def downloadKeywords_def)

lemma title_meeting_reminder: "\<not> field_match (Some ''Meeting reminder'')"
  by (simp add: field_match_def lower_meeting_reminder some_keyword_def downloadKeywords_def)

lemma message_standup: "\<not> field_match (Some ''Standup at 10'')"
  by (simp add: field_match_def lower_standup some_keyword_def downloadKeywords_def)

text \<open>
  Claim C6. A notification matches exactly when the lower-cased title or the lower-cased
  message contains one of the keywords download, save, complete, finish, downloaded,
  finished as a substring. A notification titled \<^verbatim>\<open>Download Complete\<close> matches whatever
  its message; one titled \<^verbatim>\<open>Meeting reminder\<close> whose message does not match is not
  matched.
\<close>

theorem download_related_predicate:
  "(is_download_related n \<longleftrightarrow>
      (\<exists>k \<in> set [''download'', ''save'', ''complete'', ''finish'', ''downloaded'', ''finished''].
         (\<exists>t pre post. title n = Some t \<and> toLowerCase t = pre @ k @ post) \<or>
         (\<exists>m pre post. body_message n = Some m \<and> toLowerCase m = pre @ k @ post)))
   \<and> is_download_related \<lparr> title = Some ''Download Complete'', body_message = m \<rparr>
   \<and> (\<not> field_match m \<longrightarrow>
        \<not> is_download_related \<lparr> title = Some ''Meeting reminder'', body_message = m \<rparr>)"
proof (intro conjI)
  show "is_download_related n \<longleftrightarrow>
      (\<exists>k \<in> set [''download'', ''save'', ''complete'', ''finish'', ''downloaded'', ''finished''].
         (\<exists>t pre post. title n = Some t \<and> toLowerCase t = pre @ k @ post) \<or>
         (\<exists>m pre post. body_message n = Some m \<and> toLowerCase m = pre @ k @ post))"
    unfolding is_download_related_def field_match_spec[of "title n"]
      field_match_spec[of "body_message n"]
    by blast
  show "is_download_related \<lparr> title = Some ''Download Complete'', body_message = m \<rparr>"
    by (simp add: is_download_related_def title_download_complete)
  show "\<not> field_match m \<longrightarrow>
        \<not> is_download_related \<lparr> title = Some ''Meeting reminder'', body_message = m \<rparr>"
    by (simp add: is_download_related_def title_meeting_reminder)
qed

theorem download_related_predicate_witness:
  "is_download_related \<lparr> title = Some ''Download Complete'', body_message = Some ''Standup at 10'' \<rparr>
   \<and> \<not> field_match (Some ''Standup at 10'')
   \<and> \<not> is_download_related \<lparr> title = Some ''Meeting reminder'', body_message = Some ''Standup at 10'' \<rparr>"
proof -
  have h: "\<not> field_match (Some ''Standup at 10'')" by (rule message_standup)
  note t = download_related_predicate
             [of "\<lparr> title = Some ''Meeting reminder'', body_message = Some ''Standup at 10'' \<rparr>"
                 "Some ''Standup at 10''"]
  have b: "is_download_related \<lparr> title = Some ''Download Complete'', body_message = Some ''Standup at 10'' \<rparr>"
    by (rule t[THEN conjunct2, THEN conjunct1])
  have c: "\<not> is_download_related \<lparr> title = Some ''Meeting reminder'', body_message = Some ''Standup at 10'' \<rparr>"
    by (rule t[THEN conjunct2, THEN conjunct2, THEN mp, OF h])
  show ?thesis using b h c by (intro conjI)
qed

section \<open>The Notification constructor\<close>

lemma notificationKeywords_nonempty: "k \<in> set notificationKeywords \<Longrightarrow> k \<noteq> []"
  by (auto simp: notificationKeywords_def)

lemma text_match_iff:
  "(s \<noteq> [] \<and> some_keyword notificationKeywords (toLowerCase s)) \<longleftrightarrow>
     (\<exists>k \<in> set notificationKeywords. \<exists>pre post. toLowerCase s = pre @ k @ post)"
proof -
  have "s \<noteq> []" if "k \<in> set notificationKeywords" "toLowerCase s = pre @ k @ post" for k pre post
    using nonempty_if_keyword[OF notificationKeywords_nonempty[OF that(1)] that(2)] .
  then show ?thesis unfolding some_keyword_iff by auto
qed

lemma isDownloadNotification_iff:
  "isDownloadNotification title_arg options \<longleftrightarrow>
     (\<exists>k \<in> set notificationKeywords.
        (\<exists>t pre post. title_arg = Some t \<and> toLowerCase t = pre @ k @ post) \<or>
        (\<exists>b pre post. options = Some (Some b) \<and> toLowerCase b = pre @ k @ post))"
proof -
  have t: "(case title_arg of None \<Rightarrow> False
            | Some t \<Rightarrow> t \<noteq> [] \<and> some_keyword notificationKeywords (toLowerCase t)) \<longleftrightarrow>
        (\<exists>k \<in> set notificationKeywords. \<exists>t pre post. title_arg = Some t \<and> toLowerCase t = pre @ k @ post)"
    using text_match_iff by (cases title_arg) auto
  have b: "(case options of None \<Rightarrow> False | Some None \<Rightarrow> False
            | Some (Some b) \<Rightarrow> b \<noteq> [] \<and> some_keyword notificationKeywords (toLowerCase b)) \<longleftrightarrow>
        (\<exists>k \<in> set notificationKeywords. \<exists>b pre post. options = Some (Some b) \<and> toLowerCase b = pre @ k @ post)"
  proof (cases options)
    case None
    then show ?thesis by simp
  next
    case (Some ob)
    then show ?thesis using text_match_iff by (cases ob) auto
  qed
  have "isDownloadNotification title_arg options \<longleftrightarrow>
      (case title_arg of None \<Rightarrow> False
       | Some t \<Rightarrow> t \<noteq> [] \<and> some_keyword notificationKeywords (toLowerCase t)) \<or>
      (case options of None \<Rightarrow> False | Some None \<Rightarrow> False
       | Some (Some b) \<Rightarrow> b \<noteq> [] \<and> some_keyword notificationKeywords (toLowerCase b))"
    by (simp add: isDownloadNotification_def)
  then show ?thesis unfolding t b by blast
qed

lemma lower_new_file_shared: "toLowerCase ''New file shared'' = ''new file shared''"
  by code_simp

lemma Notification_override_iff:
  "Notification_override title_arg options = NoopObject \<longleftrightarrow>
      (\<exists>k \<in> set notificationKeywords.
         (\<exists>t pre post. title_arg = Some t \<and> toLowerCase t = pre @ k @ post) \<or>
         (\<exists>b pre post. options = Some (Some b) \<and> toLowerCase b = pre @ k @ post))"
  unfolding isDownloadNotification_iff[symmetric] by (simp add: Notification_override_def)

lemma file_downloading_keywords:
  "k = ''file'' \<or> k = ''downloading'' \<Longrightarrow> k \<in> set notificationKeywords"
  by (auto simp: notificationKeywords_def)

text \<open>
  Claim C10. The override returns the no-op object exactly when the lower-cased title
  (a string) or the lower-cased body (a string) contains one of the keywords of the list.
  \<^verbatim>\<open>file\<close> and \<^verbatim>\<open>downloading\<close> are in that list, beside the download keywords and the
  four file extensions; so a title or a body with \<^verbatim>\<open>file\<close> or \<^verbatim>\<open>downloading\<close> in it, in
  any letter case, is suppressed, and so is the title \<^verbatim>\<open>New file shared\<close> with any options.
\<close>

theorem notification_override_keywords:
  "(Notification_override title_arg options = NoopObject \<longleftrightarrow>
      (\<exists>k \<in> set notificationKeywords.
         (\<exists>t pre post. title_arg = Some t \<and> toLowerCase t = pre @ k @ post) \<or>
         (\<exists>b pre post. options = Some (Some b) \<and> toLowerCase b = pre @ k @ post)))
   \<and> notificationKeywords =
        [''download'', ''downloaded'', ''downloading'', ''complete'', ''saved'', ''finished'']
        @ [''file''] @ [''.zip'', ''.pdf'', ''.exe'', ''.dmg'']
   \<and> ((k = ''file'' \<or> k = ''downloading'') \<and> toLowerCase t = pre @ k @ post \<longrightarrow>
         Notification_override (Some t) options = NoopObject)
   \<and> ((k = ''file'' \<or> k = ''downloading'') \<and> toLowerCase b = pre @ k @ post \<longrightarrow>
         Notification_override title_arg (Some (Some b)) = NoopObject)
   \<and> Notification_override (Some ''New file shared'') options = NoopObject"
proof (intro conjI)
  show "Notification_override title_arg options = NoopObject \<longleftrightarrow>
      (\<exists>k \<in> set notificationKeywords.
         (\<exists>t pre post. title_arg = Some t \<and> toLowerCase t = pre @ k @ post) \<or>
         (\<exists>b pre post. options = Some (Some b) \<and> toLowerCase b = pre @ k @ post))"
    by (rule Notification_override_iff)
  show "notificationKeywords =
        [''download'', ''downloaded'', ''downloading'', ''complete'', ''saved'', ''finished'']
        @ [''file''] @ [''.zip'', ''.pdf'', ''.exe'', ''.dmg'']"
    by (simp add: notificationKeywords_def)
  show "(k = ''file'' \<or> k = ''downloading'') \<and> toLowerCase t = pre @ k @ post \<longrightarrow>
         Notification_override (Some t) options = NoopObject"
    unfolding Notification_override_iff using file_downloading_keywords[of k] by blast
  show "(k = ''file'' \<or> k = ''downloading'') \<and> toLowerCase b = pre @ k @ post \<longrightarrow>
         Notification_override title_arg (Some (Some b)) = NoopObject"
    unfolding Notification_override_iff using file_downloading_keywords[of k] by blast
  have "''file'' \<in> set notificationKeywords" by (simp add: notificationKeywords_def)
  moreover have "toLowerCase ''New file shared'' = ''new '' @ ''file'' @ '' shared''"
    by (simp add: lower_new_file_shared)
  ultimately show "Notification_override (Some ''New file shared'') options = NoopObject"
    unfolding Notification_override_iff by blast
qed

lemma lower_now_downloading: "toLowerCase ''Now DOWNLOADING'' = ''now downloading''"
  by code_simp

theorem notification_override_keywords_witness:
  "toLowerCase ''New file shared'' = ''new '' @ ''file'' @ '' shared''
   \<and> toLowerCase ''Now DOWNLOADING'' = ''now '' @ ''downloading'' @ []
   \<and> Notification_override (Some ''New file shared'') None = NoopObject
   \<and> Notification_override None (Some (Some ''Now DOWNLOADING'')) = NoopObject"
proof -
  have h1: "toLowerCase ''New file shared'' = ''new '' @ ''file'' @ '' shared''"
    by (simp add: lower_new_file_shared)
  have h2: "toLowerCase ''Now DOWNLOADING'' = ''now '' @ ''downloading'' @ []"
    by (simp add: lower_now_downloading)
  note a = notification_override_keywords
             [where k = "''file''" and t = "''New file shared''" and pre = "''new ''"
                and post = "'' shared''" and options = None and title_arg = None]
  have 1: "Notification_override (Some ''New file shared'') None = NoopObject"
    using a h1 by blast
  note b = notification_override_keywords
             [where k = "''downloading''" and b = "''Now DOWNLOADING''" and pre = "''now ''"
                and post = "[]" and options = None and title_arg = None]
  have 2: "Notification_override None (Some (Some ''Now DOWNLOADING'')) = NoopObject"
    using b h2 by blast
  show ?thesis using h1 h2 1 2 by (intro conjI)
qed

section \<open>Console\<close>

lemma includes_across_separator:
  assumes "c \<notin> set k" and "k \<noteq> []"
  shows "(\<exists>pre post. x @ c # r = pre @ k @ post) \<longleftrightarrow>
           (\<exists>pre post. x = pre @ k @ post) \<or> (\<exists>pre post. r = pre @ k @ post)"
proof
  assume "\<exists>pre post. x @ c # r = pre @ k @ post"
  then obtain pre post where e: "x @ c # r = pre @ k @ post" by blast
  then obtain us where us: "(x = pre @ us \<and> us @ c # r = k @ post) \<or> (x @ us = pre \<and> c # r = us @ k @ post)"
    unfolding append_eq_append_conv2 by blast
  show "(\<exists>pre post. x = pre @ k @ post) \<or> (\<exists>pre post. r = pre @ k @ post)"
  proof (cases "x = pre @ us \<and> us @ c # r = k @ post")
    case True
    then obtain vs where vs: "(us = k @ vs \<and> vs @ c # r = post) \<or> (us @ vs = k \<and> c # r = vs @ post)"
      unfolding append_eq_append_conv2 by blast
    show ?thesis
    proof (cases "us = k @ vs \<and> vs @ c # r = post")
      case True
      then have "x = pre @ k @ vs" using \<open>x = pre @ us \<and> us @ c # r = k @ post\<close> by simp
      then show ?thesis by blast
    next
      case False
      then have k: "us @ vs = k" and c: "c # r = vs @ post" using vs by auto
      have "vs = []"
      proof (cases vs)
        case Nil
        then show ?thesis .
      next
        case (Cons v vs')
        then have "v = c" using c by simp
        then have "c \<in> set k" using k Cons by auto
        then show ?thesis using assms(1) by simp
      qed
      then have "x = pre @ k @ []" using k True by simp
      then show ?thesis by blast
    qed
  next
    case False
    then have p: "x @ us = pre" and c: "c # r = us @ k @ post" using us by auto
    show ?thesis
    proof (cases us)
      case Nil
      then have "c # r = k @ post" using c by simp
      then have "c \<in> set k" using assms(2) by (cases k) auto
      then show ?thesis using assms(1) by simp
    next
      case (Cons u us')
      then have "r = us' @ k @ post" using c by simp
      then show ?thesis by blast
    qed
  qed
next
  assume "(\<exists>pre post. x = pre @ k @ post) \<or> (\<exists>pre post. r = pre @ k @ post)"
  then show "\<exists>pre post. x @ c # r = pre @ k @ post"
  proof
    assume "\<exists>pre post. x = pre @ k @ post"
    then obtain pre post where "x = pre @ k @ post" by blast
    then have "x @ c # r = pre @ k @ (post @ c # r)" by simp
    then show ?thesis by blast
  next
    assume "\<exists>pre post. r = pre @ k @ post"
    then obtain pre post where "r = pre @ k @ post" by blast
    then have "x @ c # r = (x @ c # pre) @ k @ post" by simp
    then show ?thesis by blast
  qed
qed

lemma join_includes:
  assumes "c \<notin> set k" and "k \<noteq> []"
  shows "(\<exists>pre post. str_join [c] xs = pre @ k @ post) \<longleftrightarrow>
           (\<exists>x \<in> set xs. \<exists>pre post. x = pre @ k @ post)"
proof (induction "[c]" xs rule: str_join.induct)
  case 1
  then show ?case using assms(2) by simp
next
  case (2 x)
  then show ?case by simp
next
  case (3 x y ys)
  have "(\<exists>pre post. str_join [c] (x # y # ys) = pre @ k @ post) \<longleftrightarrow>
        (\<exists>pre post. x @ c # str_join [c] (y # ys) = pre @ k @ post)"
    by simp
  also have "\<dots> \<longleftrightarrow> (\<exists>pre post. x = pre @ k @ post) \<or>
        (\<exists>pre post. str_join [c] (y # ys) = pre @ k @ post)"
    by (rule includes_across_separator[OF assms])
  also have "\<dots> \<longleftrightarrow> (\<exists>pre post. x = pre @ k @ post) \<or>
        (\<exists>x \<in> set (y # ys). \<exists>pre post. x = pre @ k @ post)"
    using 3 by simp
  also have "\<dots> \<longleftrightarrow> (\<exists>x \<in> set (x # y # ys). \<exists>pre post. x = pre @ k @ post)"
    by auto
  finally show ?case .
qed

lemma isDownloadMessage_iff:
  "isDownloadMessage args \<longleftrightarrow>
     (\<exists>pre post. str_join '' '' (map arg_text args) = pre @ ''download'' @ post)"
  by (cases args) (simp_all add: isDownloadMessage_def str_includes_iff)

lemma own_debug_log_iff:
  "own_debug_log args \<longleftrightarrow>
     (\<exists>s rest pre post. args = StringArg s # rest \<and> s = pre @ ''[Silent Downloads]'' @ post)"
proof (cases args rule: own_debug_log.cases)
  case (1 s rest)
  have "s \<noteq> []" if "s = pre @ ''[Silent Downloads]'' @ post" for pre post using that by simp
  then show ?thesis using 1 by (auto simp: str_includes_iff)
qed simp_all

text \<open>
  Claim C9. \<^verbatim>\<open>console.log\<close> passes a call on when its first argument is a string that
  contains \<^verbatim>\<open>[Silent Downloads]\<close>; otherwise it gives no output exactly when the texts of
  the arguments, joined with single spaces, contain \<^verbatim>\<open>download\<close>. \<^verbatim>\<open>console.info\<close> gives
  no output under the same condition, with no exemption. The text of a string argument is
  the string in lower case, that of an object its JSON text in lower case; and since the
  keyword has no space in it, the joined text contains it exactly when the text of one
  argument does.
\<close>

theorem console_filter:
  "console_log args =
     (if (\<exists>s rest pre post. args = StringArg s # rest \<and> s = pre @ ''[Silent Downloads]'' @ post)
      then Some args
      else if (\<exists>pre post. str_join '' '' (map arg_text args) = pre @ ''download'' @ post)
      then None
      else Some args)
   \<and> console_info args =
     (if (\<exists>pre post. str_join '' '' (map arg_text args) = pre @ ''download'' @ post)
      then None
      else Some args)
   \<and> ((\<exists>pre post. str_join '' '' (map arg_text args) = pre @ ''download'' @ post) \<longleftrightarrow>
        (\<exists>a \<in> set args. \<exists>pre post. arg_text a = pre @ ''download'' @ post))
   \<and> arg_text (StringArg s) = toLowerCase s
   \<and> arg_text (ObjectArg (Some json)) = toLowerCase json"
proof (intro conjI)
  show "console_log args =
     (if (\<exists>s rest pre post. args = StringArg s # rest \<and> s = pre @ ''[Silent Downloads]'' @ post)
      then Some args
      else if (\<exists>pre post. str_join '' '' (map arg_text args) = pre @ ''download'' @ post)
      then None
      else Some args)"
    unfolding console_log_def isDownloadMessage_iff own_debug_log_iff by simp
  show "console_info args =
     (if (\<exists>pre post. str_join '' '' (map arg_text args) = pre @ ''download'' @ post)
      then None
      else Some args)"
    unfolding console_info_def isDownloadMessage_iff by simp
  have "CHR '' '' \<notin> set ''download''" and "''download'' \<noteq> []" by simp_all
  then have "(\<exists>pre post. str_join [CHR '' ''] (map arg_text args) = pre @ ''download'' @ post) \<longleftrightarrow>
        (\<exists>x \<in> set (map arg_text args). \<exists>pre post. x = pre @ ''download'' @ post)"
    by (rule join_includes)
  then show "(\<exists>pre post. str_join '' '' (map arg_text args) = pre @ ''download'' @ post) \<longleftrightarrow>
        (\<exists>a \<in> set args. \<exists>pre post. arg_text a = pre @ ''download'' @ post)"
    by simp
qed simp_all

lemma lower_download_started: "toLowerCase ''Download started'' = ''download started''"
  by code_simp

lemma lower_own_log:
  "toLowerCase ''[Silent Downloads] Download hidden'' = ''[silent downloads] download hidden''"
  by code_simp

lemma lower_page_ready: "toLowerCase ''Page ready'' = ''page ready''"
  by code_simp

theorem console_filter_witness:
  "console_log [StringArg ''Download started'', OtherArg] = None
   \<and> console_log [StringArg ''[Silent Downloads] Download hidden''] =
         Some [StringArg ''[Silent Downloads] Download hidden'']
   \<and> console_info [StringArg ''[Silent Downloads] Download hidden''] = None
   \<and> console_log [StringArg ''Page ready'', ObjectArg None] =
         Some [StringArg ''Page ready'', ObjectArg None]"
proof -
  let ?A = "[StringArg ''Download started'', OtherArg]"
  let ?B = "[StringArg ''[Silent Downloads] Download hidden'']"
  let ?C = "[StringArg ''Page ready'', ObjectArg None]"
  have a1: "\<not> own_debug_log ?A" by simp
  have a2: "isDownloadMessage ?A" by (simp add: isDownloadMessage_def lower_download_started)
  have b1: "own_debug_log ?B" by simp
  have b2: "isDownloadMessage ?B" by (simp add: isDownloadMessage_def lower_own_log)
  have c1: "\<not> own_debug_log ?C" by simp
  have c2: "\<not> isDownloadMessage ?C" by (simp add: isDownloadMessage_def lower_page_ready)
  have 1: "console_log ?A = None"
    using console_filter[of ?A] a1 a2 unfolding own_debug_log_iff isDownloadMessage_iff by simp
  have 2: "console_log ?B = Some ?B"
    using console_filter[of ?B] b1 unfolding own_debug_log_iff by simp
  have 3: "console_info ?B = None"
    using console_filter[of ?B] b2 unfolding isDownloadMessage_iff by simp
  have 4: "console_log ?C = Some ?C"
    using console_filter[of ?C] c1 c2 unfolding own_debug_log_iff isDownloadMessage_iff by simp
  show ?thesis using 1 2 3 4 by (intro conjI)
qed

section \<open>The mutation observer\<close>

lemma own_match_iff:
  "own_match a content \<longleftrightarrow>
      (\<exists>pre post. toLowerCase (className a) = pre @ ''download'' @ post)
    \<or> (\<exists>pre post. toLowerCase (elem_id a) = pre @ ''download'' @ post)
    \<or> (((\<exists>pre post. toLowerCase (className a) = pre @ ''notification'' @ post)
        \<or> (\<exists>pre post. toLowerCase (className a) = pre @ ''toast'' @ post)
        \<or> role a = Some ''alert'')
       \<and> (\<exists>k \<in> set mutationKeywords. \<exists>pre post. toLowerCase content = pre @ k @ post))"
  unfolding own_match_def Let_def str_includes_iff some_keyword_iff by blast

lemma download_selector_iff:
  "download_selector d \<longleftrightarrow>
     (\<exists>b cs pre post. d = Element b cs \<and>
        (class_attr b = pre @ ''download'' @ post \<or> elem_id b = pre @ ''download'' @ post))"
  by (cases d) (auto simp: str_includes_iff)

lemma querySelectorAll_download_iff:
  "querySelectorAll_download n \<noteq> [] \<longleftrightarrow>
     (\<exists>d \<in> set (descendants n). \<exists>b cs pre post. d = Element b cs \<and>
        (class_attr b = pre @ ''download'' @ post \<or> elem_id b = pre @ ''download'' @ post))"
  unfolding querySelectorAll_download_def filter_empty_conv download_selector_iff by blast

lemma scan_nodes_none: "\<forall>n \<in> set ns. \<not> classify n \<Longrightarrow> scan_nodes ns = (False, ns)"
  by (induction ns) auto

lemma scan_nodes_first:
  "\<forall>n \<in> set before. \<not> classify n \<Longrightarrow> classify e \<Longrightarrow>
     scan_nodes (before @ e # rest) = (True, before @ [e])"
  by (induction before) auto

lemma scan_nodes_append:
  "scan_nodes (xs @ ys) =
     (case scan_nodes xs of
        (shouldHide, seen) \<Rightarrow>
          if shouldHide then (True, seen)
          else (case scan_nodes ys of (shouldHide', seen') \<Rightarrow> (shouldHide', seen @ seen')))"
  by (induction xs) (auto split: prod.splits)

lemma scan_mutations_concat: "scan_mutations mutations = scan_nodes (concat mutations)"
  by (induction mutations) (auto simp: scan_nodes_append split: prod.splits)

text \<open>
  What the loop body decides, and how the loops run. An added element sets
  \<^verbatim>\<open>shouldHide\<close> exactly when the text of its \<^verbatim>\<open>className\<close> property or its id, in lower
  case, contains \<^verbatim>\<open>download\<close>; or that text in lower case contains \<^verbatim>\<open>notification\<close> or
  \<^verbatim>\<open>toast\<close>, or its role is \<^verbatim>\<open>alert\<close>, and its text content in lower case contains one of
  download, downloaded, complete, saved; or one of the elements below it has a class
  attribute or an id that contains \<^verbatim>\<open>download\<close> as written. A node that is not an element
  never does. The two loops behave as one loop over all added nodes of the batch in
  order: it stops at the first node that matches, having looked at that node and the
  ones before it and at none after it; with no match it looks at every node and leaves
  \<^verbatim>\<open>shouldHide\<close> false.
\<close>

lemma classification_of_added_nodes:
  "(classify (Element a children) \<longleftrightarrow>
      (\<exists>pre post. toLowerCase (className a) = pre @ ''download'' @ post)
    \<or> (\<exists>pre post. toLowerCase (elem_id a) = pre @ ''download'' @ post)
    \<or> (((\<exists>pre post. toLowerCase (className a) = pre @ ''notification'' @ post)
        \<or> (\<exists>pre post. toLowerCase (className a) = pre @ ''toast'' @ post)
        \<or> role a = Some ''alert'')
       \<and> (\<exists>k \<in> set [''download'', ''downloaded'', ''complete'', ''saved''].
            \<exists>pre post. toLowerCase (textContent (Element a children)) = pre @ k @ post))
    \<or> (\<exists>d \<in> set (descendants (Element a children)). \<exists>b cs pre post.
          d = Element b cs \<and>
          (class_attr b = pre @ ''download'' @ post \<or> elem_id b = pre @ ''download'' @ post)))
   \<and> \<not> classify (TextNode s)
   \<and> scan_mutations mutations = scan_nodes (concat mutations)
   \<and> ((\<forall>n \<in> set before. \<not> classify n) \<and> classify e \<and> concat mutations = before @ e # rest \<longrightarrow>
        scan_mutations mutations = (True, before @ [e]))
   \<and> ((\<forall>n \<in> set (concat mutations). \<not> classify n) \<longrightarrow>
        scan_mutations mutations = (False, concat mutations))"
proof (intro conjI)
  show "classify (Element a children) \<longleftrightarrow>
      (\<exists>pre post. toLowerCase (className a) = pre @ ''download'' @ post)
    \<or> (\<exists>pre post. toLowerCase (elem_id a) = pre @ ''download'' @ post)
    \<or> (((\<exists>pre post. toLowerCase (className a) = pre @ ''notification'' @ post)
        \<or> (\<exists>pre post. toLowerCase (className a) = pre @ ''toast'' @ post)
        \<or> role a = Some ''alert'')
       \<and> (\<exists>k \<in> set [''download'', ''downloaded'', ''complete'', ''saved''].
            \<exists>pre post. toLowerCase (textContent (Element a children)) = pre @ k @ post))
    \<or> (\<exists>d \<in> set (descendants (Element a children)). \<exists>b cs pre post.
          d = Element b cs \<and>
          (class_attr b = pre @ ''download'' @ post \<or> elem_id b = pre @ ''download'' @ post))"
    unfolding classify.simps own_match_iff querySelectorAll_download_iff
      mutationKeywords_def[symmetric]
    by blast
  show "\<not> classify (TextNode s)" by simp
  show "scan_mutations mutations = scan_nodes (concat mutations)"
    by (rule scan_mutations_concat)
  show "(\<forall>n \<in> set before. \<not> classify n) \<and> classify e \<and> concat mutations = before @ e # rest \<longrightarrow>
        scan_mutations mutations = (True, before @ [e])"
    by (simp add: scan_mutations_concat scan_nodes_first)
  show "(\<forall>n \<in> set (concat mutations). \<not> classify n) \<longrightarrow>
        scan_mutations mutations = (False, concat mutations)"
    using scan_nodes_none[of "concat mutations"] by (simp add: scan_mutations_concat)
qed

lemma classify_sample_plain: "\<not> classify sample_plain"
  by code_simp
lemma classify_sample_toast: "classify sample_toast"
  by code_simp
lemma classify_sample_shelf: "classify sample_shelf"
  by code_simp

lemma scan_stops_at_first_match:
  "\<not> classify (TextNode ''hi'')
   \<and> \<not> classify sample_plain
   \<and> classify sample_toast
   \<and> classify sample_shelf
   \<and> scan_mutations [[TextNode ''hi'', sample_plain], [sample_toast, sample_shelf]] =
       (True, [TextNode ''hi'', sample_plain, sample_toast])"
proof -
  have h1: "\<forall>n \<in> set [TextNode ''hi'', sample_plain]. \<not> classify n"
    by (simp add: classify_sample_plain)
  have h2: "concat [[TextNode ''hi'', sample_plain], [sample_toast, sample_shelf]] =
              [TextNode ''hi'', sample_plain] @ sample_toast # [sample_shelf]"
    by simp
  note t = classification_of_added_nodes
             [where mutations = "[[TextNode ''hi'', sample_plain], [sample_toast, sample_shelf]]"
                and before = "[TextNode ''hi'', sample_plain]" and e = sample_toast
                and rest = "[sample_shelf]"]
  have "scan_mutations [[TextNode ''hi'', sample_plain], [sample_toast, sample_shelf]] =
       (True, [TextNode ''hi'', sample_plain] @ [sample_toast])"
    using t h1 h2 classify_sample_toast by blast
  then show ?thesis using classify_sample_plain classify_sample_toast classify_sample_shelf by simp
qed

lemma lower_svg_class:
  "toLowerCase ''[object SVGAnimatedString]'' = ''[object svganimatedstring]''"
  by code_simp

lemma lower_download_icon: "toLowerCase ''download-icon'' = ''download-icon''"
  by code_simp

text \<open>
  Claim C7. An SVG element with the class \<^verbatim>\<open>download-icon\<close>, no id and nothing below it
  is added: its class contains \<^verbatim>\<open>download\<close>, and the attribute selector of the observer
  matches it, yet the loop body does not set \<^verbatim>\<open>shouldHide\<close>, because the text it tests is
  that of the \<^verbatim>\<open>className\<close> object and not the class. The batch that adds it leaves
  \<^verbatim>\<open>shouldHide\<close> false. The same element as an HTML element is classified, and so is an
  element that has the SVG icon below it.
\<close>

theorem svg_class_not_classified:
  "class_attr \<lparr> svg = True, class_attr = ''download-icon'', elem_id = [], role = None \<rparr> =
     [] @ ''download'' @ ''-icon''
   \<and> download_selector sample_svg_icon
   \<and> \<not> classify sample_svg_icon
   \<and> scan_mutations [[sample_svg_icon]] = (False, [sample_svg_icon])
   \<and> classify sample_html_icon
   \<and> classify sample_wrapped_icon"
proof -
  have lower_nil: "toLowerCase [] = []" by (simp add: toLowerCase_def)
  have own_svg: "\<not> own_match \<lparr> svg = True, class_attr = ''download-icon'', elem_id = [], role = None \<rparr> []"
    by (simp add: own_match_def className_def lower_svg_class lower_nil Let_def)
  have own_html: "own_match \<lparr> svg = False, class_attr = ''download-icon'', elem_id = [], role = None \<rparr> []"
    by (simp add: own_match_def className_def lower_download_icon lower_nil Let_def)
  have sel: "download_selector sample_svg_icon"
    by (simp add: sample_svg_icon_def)
  have n: "\<not> classify sample_svg_icon"
    using own_svg by (simp add: sample_svg_icon_def querySelectorAll_download_def)
  have h: "classify sample_html_icon"
    using own_html by (simp add: sample_html_icon_def)
  have w: "classify sample_wrapped_icon"
    using sel by (simp add: sample_wrapped_icon_def querySelectorAll_download_def)
  have s: "scan_mutations [[sample_svg_icon]] = (False, [sample_svg_icon])"
    using n by simp
  show ?thesis using sel n s h w by simp
qed

section \<open>Where the code departs from the specification\<close>

text \<open>
  Claim C2. When a download completes with both settings on, the listener clears every
  active notification: here a meeting reminder, which has none of the keywords, is
  cleared together with the download notification. The \<^verbatim>\<open>onCreated\<close> listener, on the
  same notifications, clears the download notification only.
\<close>

theorem completion_clears_every_notification:
  "onChanged ''2026-01-01T00:00:00.500Z'' True (Some ''complete'')
       (Some [(''reminder-1'', sample_reminder), (''dl-7'', sample_complete)]) sample_state =
     (Inr [''reminder-1'', ''dl-7''], sample_state)
   \<and> \<not> is_download_related sample_reminder
   \<and> onCreated ''2026-01-01T00:00:00.000Z'' True
       (Some [(''reminder-1'', sample_reminder), (''dl-7'', sample_complete)]) sample_state =
     ([''dl-7''], sample_state)"
proof -
  have r: "\<not> is_download_related sample_reminder"
    by (simp add: sample_reminder_def is_download_related_def title_meeting_reminder message_standup)
  have c: "is_download_related sample_complete"
    by (simp add: sample_complete_def is_download_related_def title_download_complete)
  have s: "truthy_bool (silentDownloads (sync sample_state))"
    "not_false (hideNotifications (sync sample_state))"
    by (simp_all add: sample_state_def truthy_bool_def not_false_def)
  show ?thesis using r c s by (simp add: onChanged_def onCreated_def)
qed

text \<open>
  Claim C3. A request with all six fields is saved with success, yet \<open>conflictAction\<close> is
  neither written to the store nor part of what \<^verbatim>\<open>getSettings\<close> answers afterwards; the
  other five fields come back as they were sent.
\<close>

theorem conflictAction_not_round_tripped:
  "fst (saveSettings ''t1'' None sample_request sample_state) = (True, None)
   \<and> conflictAction sample_request = Some ''overwrite''
   \<and> conflictAction (snd (fst (getSettings ''t2'' None
        (snd (saveSettings ''t1'' None sample_request sample_state))))) = None
   \<and> conflictAction (sync (snd (saveSettings ''t1'' None sample_request sample_state))) = None
   \<and> snd (fst (getSettings ''t2'' None
        (snd (saveSettings ''t1'' None sample_request sample_state)))) =
       sample_request\<lparr> conflictAction := None \<rparr>"
  by (simp add: saveSettings_def getSettings_def sample_request_def sample_state_def
        storage_set_def set_key_def not_false_def or_default_def)

text \<open>
  Claim C4. With the key \<open>silentDownloads\<close> absent from the store, \<^verbatim>\<open>getSettings\<close> answers
  true for it, but the three download listeners take it as false: no target is suggested
  and no notification is cleared, where the same store with the key set to true gives a
  target and clears the notification.
\<close>

theorem absent_silentDownloads_read_as_false:
  "silentDownloads (sync sample_unset) = None
   \<and> silentDownloads (snd (fst (getSettings ''t0'' None sample_unset))) = Some True
   \<and> onDeterminingFilename ''t1'' True (Some ''/tmp/x/report.pdf'') sample_unset =
       (no_suggestion, sample_unset)
   \<and> onDeterminingFilename ''t1'' True (Some ''/tmp/x/report.pdf'') sample_state =
       (\<lparr> filename = Some ''MyDownloads/report.pdf'', conflict = Some ''uniquify'' \<rparr>,
        sample_state)
   \<and> onCreated ''t2'' True (Some [(''dl-7'', sample_complete)]) sample_unset = ([], sample_unset)
   \<and> onCreated ''t2'' True (Some [(''dl-7'', sample_complete)]) sample_state =
       ([''dl-7''], sample_state)
   \<and> onChanged ''t3'' True (Some ''complete'') (Some [(''dl-7'', sample_complete)]) sample_unset =
       (Inr [], sample_unset)
   \<and> onChanged ''t3'' True (Some ''complete'') (Some [(''dl-7'', sample_complete)]) sample_state =
       (Inr [''dl-7''], sample_state)"
proof -
  have c: "is_download_related sample_complete"
    by (simp add: sample_complete_def is_download_related_def title_download_complete)
  have u: "silentDownloads (sync sample_unset) = None"
    "hideNotifications (sync sample_unset) = Some True"
    by (simp_all add: sample_unset_def sample_state_def)
  have s: "silentDownloads (sync sample_state) = Some True"
    "hideNotifications (sync sample_state) = Some True"
    "defaultPath (sync sample_state) = Some ''MyDownloads''"
    by (simp_all add: sample_state_def)
  show ?thesis using c u s
    by (simp add: onChanged_def onCreated_def onDeterminingFilename_def determine_filename_def
          getSettings_def truthy_bool_def not_false_def or_default_def pop_text_def Let_def)
qed

end
